theory Spec2Isabelle
  imports Main
begin

section \<open>Strings and regular expressions of the host language\<close>

text \<open>
  A string is the list of its code units. The code units modelled are those below 256,
  so the white space that \<^verbatim>\<open>\s\<close> matches is TAB, LF, VT, FF, CR, SP and the
  no-break space U+00A0.
\<close>

definition is_space :: "char \<Rightarrow> bool" where
  "is_space c = (c \<in> set [CHR 0x09, CHR 0x0A, CHR 0x0B, CHR 0x0C, CHR 0x0D, CHR 0x20, CHR 0xA0])"

definition nbsp :: char where
  "nbsp = CHR 0xA0"

text \<open>
  The fragment of the pattern syntax that style.js uses: the assertions \<^verbatim>\<open>^\<close> and
  \<^verbatim>\<open>$\<close> (no multiline flag), the class \<^verbatim>\<open>\s\<close>, a literal character, sequence,
  the alternation \<^verbatim>\<open>|\<close> and the greedy quantifier \<^verbatim>\<open>+\<close>. Groups capture nothing the
  code reads, so \<^verbatim>\<open>(...)\<close> and \<^verbatim>\<open>(?:...)\<close> are both plain grouping.
\<close>

datatype regex = Bol | Eol | Space | Chr char | Seq regex regex | Alt regex regex | Plus regex

text \<open>
  The backtracking matcher: \<open>ends r s i\<close> lists the positions at which a match of \<open>r\<close>
  that starts at position \<open>i\<close> of \<open>s\<close> can end, in the order in which the matcher tries
  them (the left alternative first, the longer repetition first). A further iteration of
  \<^verbatim>\<open>+\<close> is tried only after an iteration that consumed input.
\<close>

function ends :: "regex \<Rightarrow> string \<Rightarrow> nat \<Rightarrow> nat list" where
  "ends Bol s i = (if i = 0 then [i] else [])"
| "ends Eol s i = (if i = length s then [i] else [])"
| "ends Space s i = (if i < length s \<and> is_space (s ! i) then [Suc i] else [])"
| "ends (Chr c) s i = (if i < length s \<and> s ! i = c then [Suc i] else [])"
| "ends (Seq a b) s i = concat (map (ends b s) (ends a s i))"
| "ends (Alt a b) s i = ends a s i @ ends b s i"
| "ends (Plus a) s i =
     concat (map (\<lambda>j. (if i < j \<and> j \<le> length s then ends (Plus a) s j else []) @ [j])
       (ends a s i))"
  by pat_completeness auto
termination
  by (relation "measures [\<lambda>(r, s, i). size r, \<lambda>(r, s, i). length s - i]") auto

declare ends.simps(7) [simp del]

text \<open>
  \<open>exec_from r s k\<close> is the first match at or after position \<open>k\<close>: the leftmost start,
  and for that start the end the matcher finds first.
\<close>

definition exec_from :: "regex \<Rightarrow> string \<Rightarrow> nat \<Rightarrow> (nat \<times> nat) option" where
  "exec_from r s k =
     (case find (\<lambda>i. ends r s i \<noteq> []) [k ..< Suc (length s)] of
        None \<Rightarrow> None
      | Some i \<Rightarrow> Some (i, hd (ends r s i)))"

text \<open>\<^verbatim>\<open>re.test(s)\<close> for a pattern without the g flag.\<close>

definition regex_test :: "regex \<Rightarrow> string \<Rightarrow> bool" where
  "regex_test r s = (exec_from r s 0 \<noteq> None)"

text \<open>
  \<^verbatim>\<open>s.replace(re, rep)\<close> for a pattern without the g flag and a replacement text without
  \<^verbatim>\<open>$\<close>: the first match is replaced, the rest of the string is kept.
\<close>

definition replace_first :: "regex \<Rightarrow> string \<Rightarrow> string \<Rightarrow> string" where
  "replace_first r s rep =
     (case exec_from r s 0 of
        None \<Rightarrow> s
      | Some (i, e) \<Rightarrow> take i s @ rep @ drop e s)"

text \<open>
  \<^verbatim>\<open>s.replace(re, rep)\<close> for a pattern with the g flag, from position \<open>k\<close> on: every
  match is replaced, the search going on where the last match ended (one character
  further after an empty match).
\<close>

function replace_global :: "regex \<Rightarrow> string \<Rightarrow> string \<Rightarrow> nat \<Rightarrow> string" where
  "replace_global r s rep k =
     (case exec_from r s k of
        None \<Rightarrow> drop k s
      | Some (i, e) \<Rightarrow>
          take (i - k) (drop k s) @ rep @
          (if i < e then replace_global r s rep e
           else if i < length s then s ! i # replace_global r s rep (Suc i)
           else []))"
  by pat_completeness auto
termination
proof (relation "measure (\<lambda>(r, s, rep, k). Suc (length s) - k)")
  show "wf (measure (\<lambda>(r, s, rep, k). Suc (length s) - k))"
    by simp
next
  fix r :: regex and s rep :: string and k :: nat and x2 :: "nat \<times> nat" and i e :: nat
  assume "exec_from r s k = Some x2" and "(i, e) = x2" and "i < e"
  then have "find (\<lambda>i. ends r s i \<noteq> []) [k ..< Suc (length s)] = Some i"
    by (auto simp: exec_from_def simp del: upt_Suc split: option.splits)
  then have "i \<in> set [k ..< Suc (length s)]"
    unfolding find_Some_iff by (metis nth_mem)
  with \<open>i < e\<close> show "((r, s, rep, e), (r, s, rep, k)) \<in> measure (\<lambda>(r, s, rep, k). Suc (length s) - k)"
    by auto
next
  fix r :: regex and s rep :: string and k :: nat and x2 :: "nat \<times> nat" and i e :: nat
  assume "exec_from r s k = Some x2" and "(i, e) = x2" and "i < length s"
  then have "find (\<lambda>i. ends r s i \<noteq> []) [k ..< Suc (length s)] = Some i"
    by (auto simp: exec_from_def simp del: upt_Suc split: option.splits)
  then have "i \<in> set [k ..< Suc (length s)]"
    unfolding find_Some_iff by (metis nth_mem)
  with \<open>i < length s\<close>
  show "((r, s, rep, Suc i), (r, s, rep, k)) \<in> measure (\<lambda>(r, s, rep, k). Suc (length s) - k)"
    by auto
qed

declare replace_global.simps [simp del]

text \<open>
  \<^verbatim>\<open>s.replace(v, rep)\<close> when \<open>v\<close> is not a RegExp: \<open>v\<close> is converted to a string and
  the first occurrence of that text is replaced.
\<close>

definition replace_text :: "string \<Rightarrow> string \<Rightarrow> string \<Rightarrow> string" where
  "replace_text txt s rep =
     (case find (\<lambda>i. take (length txt) (drop i s) = txt) [0 ..< Suc (length s)] of
        None \<Rightarrow> s
      | Some i \<Rightarrow> take i s @ rep @ drop (i + length txt) s)"

subsection \<open>The two patterns of style.js\<close>

text \<open>\<^verbatim>\<open>var rtrim = /^(\s|\u00A0)+|(\s|\u00A0)+$/g;\<close>\<close>

definition rtrim :: regex where
  "rtrim = Alt (Seq Bol (Plus (Alt Space (Chr nbsp)))) (Seq (Plus (Alt Space (Chr nbsp))) Eol)"

text \<open>
  \<^verbatim>\<open>function trim(text) { return (text || "").replace( rtrim, "" ); }\<close>, for a string
  \<open>text\<close> (the empty string is the only falsy one, and \<^verbatim>\<open>"" || ""\<close> is the empty string).
\<close>

definition trim :: "string \<Rightarrow> string" where
  "trim text = replace_global rtrim text [] 0"

text \<open>
  The pattern \<^verbatim>\<open>'(?:^|\\s+)' + className + '(?:\\s+|$)'\<close> when every character of the
  class name stands for itself in the pattern syntax.
\<close>

definition class_pattern :: "string \<Rightarrow> regex" where
  "class_pattern cn =
     Seq (Alt Bol (Plus Space)) (foldr (\<lambda>c. Seq (Chr c)) cn (Alt (Plus Space) Eol))"

text \<open>The characters with a meaning of their own in the pattern syntax.\<close>

definition regex_special :: "char \<Rightarrow> bool" where
  "regex_special c =
     (c \<in> set [CHR 0x5C, CHR ''^'', CHR ''$'', CHR ''.'', CHR ''*'', CHR ''+'', CHR ''?'',
                CHR ''('', CHR '')'', CHR ''['', CHR '']'', CHR ''{'', CHR ''}'', CHR ''|''])"

definition literal :: "string \<Rightarrow> bool" where
  "literal cn = (\<not> list_ex regex_special cn)"

section \<open>Elements, collections and the state of the page\<close>

text \<open>
  An element has a \<^verbatim>\<open>className\<close> string and an inline \<^verbatim>\<open>style\<close> object, a map from
  property names to values. Elements are shared objects: a collection holds handles, and
  the document maps each handle to the element's current state.
\<close>

record element =
  className :: string
  style :: "string \<rightharpoonup> string"

type_synonym ref = nat

text \<open>A collection is an object (with an identity) that holds element handles in order.\<close>

record xui =
  handle :: nat
  elems :: "ref list"

text \<open>
  A RegExp object made by \<^verbatim>\<open>new RegExp(...)\<close>: its identity (the number of RegExp objects
  made before it) and its pattern.
\<close>

record RegExp =
  oid :: nat
  pattern :: regex

text \<open>
  The state the code reads and writes: the elements, the own properties of the object
  \<^verbatim>\<open>reClassNameCache\<close>, and the number of RegExp objects that \<^verbatim>\<open>getClassRegEx\<close> has made.
\<close>

record state =
  document :: "ref \<Rightarrow> element"
  reClassNameCache :: "string \<rightharpoonup> RegExp"
  allocated :: nat

definition initial :: "(ref \<Rightarrow> element) \<Rightarrow> state" where
  "initial d = \<lparr>document = d, reClassNameCache = Map.empty, allocated = 0\<rparr>"

text \<open>
  What the platform provides:
  \<^item> \<open>computedStyle d el p\<close> is
    \<^verbatim>\<open>document.defaultView.getComputedStyle(el, "").getPropertyValue(p)\<close> in the document \<open>d\<close>;
  \<^item> \<open>inherited\<close> gives the properties that the object literal \<^verbatim>\<open>{}\<close> inherits from
    \<^verbatim>\<open>Object.prototype\<close> (\<^verbatim>\<open>constructor\<close>, \<^verbatim>\<open>toString\<close>, ...): each is a truthy value that is
    not a RegExp, given here by the string it converts to.
\<close>

record host =
  computedStyle :: "(ref \<Rightarrow> element) \<Rightarrow> ref \<Rightarrow> string \<Rightarrow> string"
  inherited :: "string \<rightharpoonup> string"

text \<open>
  \<open>TypeError\<close> is the exception of the host language. \<open>NotModelled\<close> marks a class name
  with a special character of the pattern syntax: there \<^verbatim>\<open>new RegExp\<close> throws a
  SyntaxError or builds a pattern outside the fragment above, and the model stops.
\<close>

datatype error = TypeError | NotModelled

datatype retval = Collection xui | Boolean bool | Text string

text \<open>What \<^verbatim>\<open>reClassNameCache[className]\<close> can yield when it is truthy.\<close>

datatype property = RegExpObject RegExp | OtherObject string

text \<open>The assignments \<^verbatim>\<open>el.className = v\<close> and \<^verbatim>\<open>el.style[prop] = val\<close>.\<close>

definition set_className :: "ref \<Rightarrow> string \<Rightarrow> state \<Rightarrow> state" where
  "set_className el v st = st\<lparr>document := (document st)(el := (document st el)\<lparr>className := v\<rparr>)\<rparr>"

definition set_style :: "ref \<Rightarrow> string \<Rightarrow> string \<Rightarrow> state \<Rightarrow> state" where
  "set_style el prop val st =
     st\<lparr>document := (document st)(el := (document st el)\<lparr>style := (style (document st el))(prop \<mapsto> val)\<rparr>)\<rparr>"

text \<open>
  Modelled from the spec: \<^verbatim>\<open>each\<close> is a method of the collection type and is defined
  outside style.js. Section 3 of the specification: "applies fn to every element,
  synchronously, in sequence order; returns the collection itself for chaining". An
  exception thrown by \<open>fn\<close> ends the iteration.
\<close>

fun each_from :: "ref list \<Rightarrow> (ref \<Rightarrow> 's \<Rightarrow> error + 's) \<Rightarrow> 's \<Rightarrow> error + 's" where
  "each_from [] fn s = Inr s"
| "each_from (el # els) fn s = (case fn el s of Inl e \<Rightarrow> Inl e | Inr s' \<Rightarrow> each_from els fn s')"

text \<open>
  Modelled from the spec: what \<^verbatim>\<open>each\<close> returns, "the collection itself" (section 3).
\<close>

definition each :: "xui \<Rightarrow> (ref \<Rightarrow> 's \<Rightarrow> error + 's) \<Rightarrow> 's \<Rightarrow> error + (retval \<times> 's)" where
  "each this fn s =
     (case each_from (elems this) fn s of
        Inl e \<Rightarrow> Inl e
      | Inr s' \<Rightarrow> Inr (Collection this, s'))"

section \<open>style.js\<close>

subsection \<open>The private functions\<close>

text \<open>
  \<^verbatim>\<open>new RegExp('(?:^|\\s+)' + className + '(?:\\s+|$)')\<close>: a new object with the pattern
  of the class name.
\<close>

definition new_RegExp :: "string \<Rightarrow> state \<Rightarrow> error + (RegExp \<times> state)" where
  "new_RegExp cn st =
     (if literal cn
      then Inr (\<lparr>oid = allocated st, pattern = class_pattern cn\<rparr>, st\<lparr>allocated := Suc (allocated st)\<rparr>)
      else Inl NotModelled)"

text \<open>
  \<^verbatim>\<open>getClassRegEx\<close> (lines 253-260). The lookup \<^verbatim>\<open>reClassNameCache[className]\<close> reads an
  own property of the cache object when there is one and an inherited property
  otherwise; when the value is falsy a pattern is made and stored.
\<close>

definition getClassRegEx :: "host \<Rightarrow> string \<Rightarrow> state \<Rightarrow> error + (property \<times> state)" where
  "getClassRegEx h cn st =
     (case reClassNameCache st cn of
        Some re \<Rightarrow> Inr (RegExpObject re, st)
      | None \<Rightarrow>
          (case inherited h cn of
             Some txt \<Rightarrow> Inr (OtherObject txt, st)
           | None \<Rightarrow>
               (case new_RegExp cn st of
                  Inl e \<Rightarrow> Inl e
                | Inr (re, st') \<Rightarrow>
                    Inr (RegExpObject re, st'\<lparr>reClassNameCache := (reClassNameCache st')(cn \<mapsto> re)\<rparr>))))"

text \<open>\<^verbatim>\<open>re.test(s)\<close>: a value that is no RegExp has no method \<^verbatim>\<open>test\<close>.\<close>

fun test :: "property \<Rightarrow> string \<Rightarrow> error + bool" where
  "test (RegExpObject re) s = Inr (regex_test (pattern re) s)"
| "test (OtherObject txt) s = Inl TypeError"

text \<open>\<^verbatim>\<open>s.replace(re, rep)\<close>.\<close>

fun replace :: "string \<Rightarrow> property \<Rightarrow> string \<Rightarrow> string" where
  "replace s (RegExpObject re) rep = replace_first (pattern re) s rep"
| "replace s (OtherObject txt) rep = replace_text txt s rep"

text \<open>
  \<^verbatim>\<open>function hasClass(el, className) { return getClassRegEx(className).test(el.className); }\<close>
  (lines 14-16).
\<close>

definition hasClass :: "host \<Rightarrow> ref \<Rightarrow> string \<Rightarrow> state \<Rightarrow> error + (bool \<times> state)" where
  "hasClass h el cn st =
     (case getClassRegEx h cn st of
        Inl e \<Rightarrow> Inl e
      | Inr (re, st') \<Rightarrow>
          (case test re (className (document st' el)) of
             Inl e \<Rightarrow> Inl e
           | Inr b \<Rightarrow> Inr (b, st')))"

subsection \<open>The methods\<close>

text \<open>\<^verbatim>\<open>setStyle\<close> (lines 54-58).\<close>

definition setStyle :: "xui \<Rightarrow> string \<Rightarrow> string \<Rightarrow> state \<Rightarrow> error + (retval \<times> state)" where
  "setStyle this prop val st = each this (\<lambda>el s. Inr (set_style el prop val s)) st"

text \<open>
  A callback is a function of the caller: it gets its argument and may change the state
  (through the document or through the methods of the library) before it returns. The
  methods that take a callback run on the state together with the list of the arguments
  that the callback has been called with so far.
\<close>

type_synonym 'a callback = "'a \<Rightarrow> state \<Rightarrow> state"





text \<open>
  The method \<^verbatim>\<open>hasClass\<close> (lines 161-171); the private function of lines 14-16 has the
  name \<open>hasClass\<close> here. Calling an undefined callback throws.
\<close>

definition hasClass_method ::
  "host \<Rightarrow> xui \<Rightarrow> string \<Rightarrow> ref callback option \<Rightarrow> state \<times> ref list \<Rightarrow>
     error + (retval \<times> (state \<times> ref list))" where
  "hasClass_method h this cn callback w =
     (if callback = None \<and> length (elems this) = 1
      then
        (case hasClass h (elems this ! 0) (className (document (fst w) (elems this ! 0))) (fst w) of
           Inl e \<Rightarrow> Inl e
         | Inr (b, st') \<Rightarrow> Inr (Boolean b, (st', snd w)))
      else
        each this
          (\<lambda>el (st, calls).
             case hasClass h el (className (document st el)) st of
               Inl e \<Rightarrow> Inl e
             | Inr (b, st') \<Rightarrow>
                 if b
                 then (case callback of
                         None \<Rightarrow> Inl TypeError
                       | Some cb \<Rightarrow> Inr (cb el st', calls @ [el]))
                 else Inr (st', calls))
          w)"

text \<open>
  \<^verbatim>\<open>removeClass\<close> (lines 197-209); \<open>None\<close> is the call without an argument, and
  \<open>removeClass_fn\<close> is the function passed to \<^verbatim>\<open>each\<close> when there is one.
\<close>

definition removeClass_fn :: "property \<Rightarrow> ref \<Rightarrow> state \<Rightarrow> error + state" where
  "removeClass_fn re el s = Inr (set_className el (replace (className (document s el)) re []) s)"

definition removeClass :: "host \<Rightarrow> xui \<Rightarrow> string option \<Rightarrow> state \<Rightarrow> error + (retval \<times> state)" where
  "removeClass h this cn st =
     (case cn of
        None \<Rightarrow>
          (case each this (\<lambda>el s. Inr (set_className el [] s)) st of
             Inl e \<Rightarrow> Inl e
           | Inr (_, st') \<Rightarrow> Inr (Collection this, st'))
      | Some c \<Rightarrow>
          (case getClassRegEx h c st of
             Inl e \<Rightarrow> Inl e
           | Inr (re, st1) \<Rightarrow>
               (case each this (removeClass_fn re) st1 of
                  Inl e \<Rightarrow> Inl e
                | Inr (_, st') \<Rightarrow> Inr (Collection this, st'))))"

text \<open>
  \<^verbatim>\<open>css\<close> (lines 236-243). The object \<open>o\<close> is the list of its properties in the order
  in which \<^verbatim>\<open>for (var prop in o)\<close> visits them; the loop calls \<^verbatim>\<open>that.setStyle\<close> for
  each of them, and it runs once for every element of the collection.
\<close>

fun css_for_in :: "xui \<Rightarrow> (string \<times> string) list \<Rightarrow> state \<Rightarrow> error + state" where
  "css_for_in that [] s = Inr s"
| "css_for_in that ((prop, val) # ps) s =
     (case setStyle that prop val s of
        Inl e \<Rightarrow> Inl e
      | Inr (_, s') \<Rightarrow> css_for_in that ps s')"

definition css :: "xui \<Rightarrow> (string \<times> string) list \<Rightarrow> state \<Rightarrow> error + (retval \<times> state)" where
  "css this o_props st = each this (\<lambda>el s. css_for_in this o_props s) st"

section \<open>Notions used in the statements\<close>

subsection \<open>What the claims speak of\<close>


text \<open>
  The invariant of the cache, which holds for the empty cache and is kept by every
  function of style.js: as many RegExp objects have been made as the cache has keys, the
  entry of a class name is the pattern of that name, and no object is the entry of two
  names.
\<close>

definition cache_inv :: "state \<Rightarrow> bool" where
  "cache_inv st \<longleftrightarrow>
     finite (dom (reClassNameCache st)) \<and>
     card (dom (reClassNameCache st)) = allocated st \<and>
     (\<forall>cn re. reClassNameCache st cn = Some re \<longrightarrow>
        pattern re = class_pattern cn \<and> oid re < allocated st) \<and>
     (\<forall>a b ra rb. reClassNameCache st a = Some ra \<and> reClassNameCache st b = Some rb \<and>
        oid ra = oid rb \<longrightarrow> a = b)"

text \<open>
  A state in which the class names of the elements \<open>els\<close> are names whose pattern the
  embedding covers and the cache has its invariant.
\<close>

definition names_modelled :: "host \<Rightarrow> ref list \<Rightarrow> state \<Rightarrow> bool" where
  "names_modelled h els s \<longleftrightarrow>
     cache_inv s \<and>
     (\<forall>r \<in> set els. literal (className (document s r)) \<and> inherited h (className (document s r)) = None)"

text \<open>
  The specification's reading of \<^verbatim>\<open>css(o)\<close>: "calling setStyle(key, o[key]) in sequence
  for each key of o on the whole collection".
\<close>

definition setStyle_in_sequence :: "xui \<Rightarrow> (string \<times> string) list \<Rightarrow> state \<Rightarrow> error + state" where
  "setStyle_in_sequence this ps st =
     foldl (\<lambda>acc (prop, val).
              case acc of
                Inl e \<Rightarrow> Inl e
              | Inr s \<Rightarrow> (case setStyle this prop val s of Inl e \<Rightarrow> Inl e | Inr (_, s') \<Rightarrow> Inr s'))
       (Inr st) ps"

text \<open>Writing a list of properties into one style object, and a change of the style of every
  element of a list.\<close>

definition put_all :: "(string \<times> string) list \<Rightarrow> (string \<rightharpoonup> string) \<Rightarrow> (string \<rightharpoonup> string)" where
  "put_all ps m = fold (\<lambda>(p, v) m. m(p \<mapsto> v)) ps m"

definition style_all :: "ref list \<Rightarrow> ((string \<rightharpoonup> string) \<Rightarrow> (string \<rightharpoonup> string)) \<Rightarrow> state \<Rightarrow> state" where
  "style_all els g st =
     st\<lparr>document := (\<lambda>r. if r \<in> set els then (document st r)\<lparr>style := g (style (document st r))\<rparr>
                          else document st r)\<rparr>"

text \<open>What a test observes of a result: the class names of some elements, and the
  arguments the callback was called with.\<close>

definition classNames :: "ref list \<Rightarrow> error + (retval \<times> state) \<Rightarrow> error + string list" where
  "classNames rs res =
     (case res of Inl e \<Rightarrow> Inl e | Inr (v, st) \<Rightarrow> Inr (map (\<lambda>r. className (document st r)) rs))"

definition called_with :: "error + (retval \<times> (state \<times> 'a list)) \<Rightarrow> error + (retval \<times> 'a list)" where
  "called_with res = (case res of Inl e \<Rightarrow> Inl e | Inr (v, (st, calls)) \<Rightarrow> Inr (v, calls))"

subsection \<open>Concrete pages\<close>

text \<open>
  A platform for the examples: the computed value of a property is its inline value, and
  the cache object inherits the seven properties that every \<^verbatim>\<open>Object.prototype\<close> has.
\<close>

definition example_host :: host where
  "example_host =
     \<lparr>computedStyle = (\<lambda>d el p. case style (d el) p of None \<Rightarrow> [] | Some v \<Rightarrow> v),
      inherited = map_of
        [(''constructor'', ''function Object() { [native code] }''),
         (''toString'', ''function toString() { [native code] }''),
         (''toLocaleString'', ''function toLocaleString() { [native code] }''),
         (''valueOf'', ''function valueOf() { [native code] }''),
         (''hasOwnProperty'', ''function hasOwnProperty() { [native code] }''),
         (''isPrototypeOf'', ''function isPrototypeOf() { [native code] }''),
         (''propertyIsEnumerable'', ''function propertyIsEnumerable() { [native code] }'')]\<rparr>"

text \<open>The page whose element \<open>r\<close> has the class list and the inline style given at index \<open>r\<close>.\<close>

definition page :: "(string \<times> (string \<times> string) list) list \<Rightarrow> ref \<Rightarrow> element" where
  "page es r =
     (if r < length es then \<lparr>className = fst (es ! r), style = map_of (snd (es ! r))\<rparr>
      else \<lparr>className = [], style = Map.empty\<rparr>)"

text \<open>The collection of the first \<open>n\<close> elements of a page.\<close>

definition first_n :: "nat \<Rightarrow> xui" where
  "first_n n = \<lparr>handle = 0, elems = [0 ..< n]\<rparr>"


definition no_op :: "ref callback" where
  "no_op el st = st"

section \<open>Proofs\<close>

subsection \<open>Iteration, and the methods that cannot fail\<close>

lemma each_from_pure: "each_from els (\<lambda>el s. Inr (f el s)) s = Inr (fold f els s)"
  by (induction els arbitrary: s) auto

lemma each_from_append:
  "each_from (xs @ ys) fn s = (case each_from xs fn s of Inl e \<Rightarrow> Inl e | Inr s' \<Rightarrow> each_from ys fn s')"
  by (induction xs arbitrary: s) (auto split: sum.splits)

lemma setStyle_fold:
  "setStyle this prop val st = Inr (Collection this, fold (\<lambda>el. set_style el prop val) (elems this) st)"
  by (simp add: setStyle_def each_def each_from_pure)

lemma fold_set_className_document:
  "className (document (fold (\<lambda>el. set_className el v) els st) r) =
     (if r \<in> set els then v else className (document st r))"
  by (induction els arbitrary: st) (auto simp: set_className_def)

lemma removeClass_None:
  "removeClass h this None st = Inr (Collection this, fold (\<lambda>el. set_className el []) (elems this) st)"
  by (simp add: removeClass_def each_def each_from_pure)

subsection \<open>css runs the sequence of setStyle calls once per element\<close>

lemma put_all_apply:
  "put_all ps m k = (case map_of (rev ps) k of Some v \<Rightarrow> Some v | None \<Rightarrow> m k)"
proof (induction ps arbitrary: m)
  case Nil
  show ?case by (simp add: put_all_def)
next
  case (Cons a ps)
  obtain p v where a: "a = (p, v)" by (cases a)
  have "put_all (a # ps) m k = put_all ps (m(p \<mapsto> v)) k"
    by (simp add: put_all_def a)
  also have "\<dots> = (case map_of (rev ps) k of Some x \<Rightarrow> Some x | None \<Rightarrow> (m(p \<mapsto> v)) k)"
    by (rule Cons.IH)
  also have "\<dots> = (case map_of (rev (a # ps)) k of Some x \<Rightarrow> Some x | None \<Rightarrow> m k)"
    by (simp add: a map_add_def split: option.splits)
  finally show ?case .
qed

lemma put_all_idem: "put_all ps (put_all ps m) = put_all ps m"
  by (rule ext) (simp add: put_all_apply split: option.splits)

lemma style_all_Nil: "style_all [] g st = st"
  by (simp add: style_all_def)

lemma style_all_id: "style_all els (\<lambda>m. m) st = st"
proof -
  have "(\<lambda>r. if r \<in> set els then (document st r)\<lparr>style := style (document st r)\<rparr>
             else document st r) = document st"
    by (auto simp: fun_eq_iff)
  then show ?thesis by (simp add: style_all_def)
qed

lemma style_all_comp: "style_all els g (style_all els f st) = style_all els (\<lambda>m. g (f m)) st"
  by (auto simp: style_all_def fun_eq_iff)

lemma fold_set_style: "fold (\<lambda>el. set_style el p v) els st = style_all els (\<lambda>m. m(p \<mapsto> v)) st"
proof (induction els arbitrary: st)
  case Nil
  show ?case by (simp add: style_all_def)
next
  case (Cons el els)
  have "fold (\<lambda>el. set_style el p v) (el # els) st =
      fold (\<lambda>el. set_style el p v) els (set_style el p v st)"
    by simp
  also have "\<dots> = style_all els (\<lambda>m. m(p \<mapsto> v)) (set_style el p v st)"
    by (rule Cons.IH)
  also have "\<dots> = style_all (el # els) (\<lambda>m. m(p \<mapsto> v)) st"
    by (auto simp: style_all_def set_style_def fun_eq_iff)
  finally show ?case .
qed

lemma css_for_in_style_all: "css_for_in this ps st = Inr (style_all (elems this) (put_all ps) st)"
proof (induction ps arbitrary: st)
  case Nil
  show ?case by (simp add: put_all_def style_all_id)
next
  case (Cons a ps)
  obtain p v where a: "a = (p, v)" by (cases a)
  have "put_all (a # ps) = (\<lambda>m. put_all ps (m(p \<mapsto> v)))"
    by (simp add: put_all_def a fun_eq_iff)
  then show ?case
    by (simp add: a setStyle_fold fold_set_style Cons.IH style_all_comp)
qed

lemma each_from_const: "each_from els (\<lambda>el s. Inr (G s)) s = Inr ((G ^^ length els) s)"
  by (induction els arbitrary: s) (auto simp: funpow_swap1)

lemma funpow_idem: "(\<And>x. G (G x) = G x) \<Longrightarrow> 0 < n \<Longrightarrow> (G ^^ n) x = G x"
proof (induction n)
  case 0
  then show ?case by simp
next
  case (Suc n)
  then show ?case by (cases n) auto
qed

lemma css_style_all: "css this ps st = Inr (Collection this, style_all (elems this) (put_all ps) st)"
proof (cases "elems this")
  case Nil
  then show ?thesis by (simp add: css_def each_def style_all_Nil)
next
  case (Cons el els)
  have idem: "\<And>x. style_all (elems this) (put_all ps) (style_all (elems this) (put_all ps) x) =
      style_all (elems this) (put_all ps) x"
    by (simp add: style_all_comp put_all_idem)
  have "each_from (elems this) (\<lambda>el s. css_for_in this ps s) st =
      Inr ((style_all (elems this) (put_all ps) ^^ length (elems this)) st)"
    by (simp add: css_for_in_style_all each_from_const)
  also have "(style_all (elems this) (put_all ps) ^^ length (elems this)) st =
      style_all (elems this) (put_all ps) st"
    by (rule funpow_idem[OF idem]) (simp add: Cons)
  finally show ?thesis by (simp add: css_def each_def)
qed

lemma setStyle_in_sequence_style_all:
  "setStyle_in_sequence this ps st = Inr (style_all (elems this) (put_all ps) st)"
proof -
  have "foldl (\<lambda>acc (prop, val).
              case acc of
                Inl e \<Rightarrow> Inl e
              | Inr s \<Rightarrow> (case setStyle this prop val s of Inl e \<Rightarrow> Inl e | Inr (_, s') \<Rightarrow> Inr s'))
       (css_for_in this qs st) ps = css_for_in this (qs @ ps) st" for qs
  proof (induction ps arbitrary: qs)
    case Nil
    show ?case by simp
  next
    case (Cons a ps)
    obtain p v where a: "a = (p, v)" by (cases a)
    have step: "css_for_in this (qs @ [(p, v)]) st =
      (case css_for_in this qs st of Inl e \<Rightarrow> Inl e
       | Inr s \<Rightarrow> (case setStyle this p v s of Inl e \<Rightarrow> Inl e | Inr (_, s') \<Rightarrow> Inr s'))"
      by (induction qs arbitrary: st) (auto simp: setStyle_fold split: sum.splits)
    show ?case
      using Cons.IH[of "qs @ [(p, v)]"] by (simp add: a step)
  qed
  from this[of "[]"] have "setStyle_in_sequence this ps st = css_for_in this ps st"
    by (simp add: setStyle_in_sequence_def)
  then show ?thesis
    by (simp add: css_for_in_style_all)
qed

subsection \<open>The calls that getStyle makes\<close>





subsection \<open>The matcher\<close>

lemma ends_bounds: "j \<in> set (ends r s i) \<Longrightarrow> i \<le> j \<and> j \<le> length s"
proof (induction r s i arbitrary: j rule: ends.induct)
  case (5 a b s i)
  then show ?case by (fastforce simp: split: if_splits)
next
  case (7 a s i)
  from "7.prems" obtain k where k: "k \<in> set (ends a s i)"
    and j: "j \<in> set ((if i < k \<and> k \<le> length s then ends (Plus a) s k else []) @ [k])"
    by (auto simp: ends.simps(7)[of a s i])
  from "7.IH"(1)[OF k] have ik: "i \<le> k" "k \<le> length s" by auto
  show ?case
  proof (cases "j = k")
    case True
    with ik show ?thesis by simp
  next
    case False
    with j have "i < k \<and> k \<le> length s" and "j \<in> set (ends (Plus a) s k)"
      by (auto split: if_splits)
    with "7.IH"(2)[OF k] ik show ?thesis by fastforce
  qed
qed (auto split: if_splits)

lemma concat_map_single_set:
  assumes "set xs = {a}"
  shows "set (concat (map F xs)) = set (F a)"
  using assms by auto

lemma concat_map_single_hd:
  assumes "set xs = {a}" and "F a \<noteq> []"
  shows "hd (concat (map F xs)) = hd (F a)"
proof -
  from assms(1) obtain ys where "xs = a # ys"
    by (cases xs) auto
  with assms(2) show ?thesis by simp
qed

lemma ends_Plus_class_aux:
  assumes body: "\<And>i. set (ends b s i) = (if i < length s \<and> P (s ! i) then {Suc i} else {})"
  shows "set (ends (Plus b) s i) = {j. i < j \<and> j \<le> i + length (takeWhile P (drop i s))} \<and>
    (ends (Plus b) s i \<noteq> [] \<longrightarrow> hd (ends (Plus b) s i) = i + length (takeWhile P (drop i s)))"
proof (induction "length s - i" arbitrary: i rule: less_induct)
  case less
  let ?run = "\<lambda>i. length (takeWhile P (drop i s))"
  show ?case
  proof (cases "i < length s \<and> P (s ! i)")
    case False
    with body[of i] have "set (ends b s i) = {}" by (simp split: if_splits)
    then have e: "ends b s i = []" by simp
    have "?run i = 0"
    proof (cases "i < length s")
      case True
      with False have "\<not> P (s ! i)" by simp
      moreover from True have "drop i s = s ! i # drop (Suc i) s"
        by (simp add: Cons_nth_drop_Suc)
      ultimately show ?thesis by simp
    next
      case False
      then show ?thesis by simp
    qed
    with e show ?thesis
      by (auto simp: ends.simps(7)[of b s i])
  next
    case yes: True
    then have sb: "set (ends b s i) = {Suc i}" using body[of i] by simp
    let ?F = "\<lambda>j. (if i < j \<and> j \<le> length s then ends (Plus b) s j else []) @ [j]"
    have F: "?F (Suc i) = ends (Plus b) s (Suc i) @ [Suc i]" using yes by simp
    have unf: "ends (Plus b) s i = concat (map ?F (ends b s i))"
      by (rule ends.simps(7))
    from yes have d: "drop i s = s ! i # drop (Suc i) s"
      by (simp add: Cons_nth_drop_Suc)
    with yes have run: "?run i = Suc (?run (Suc i))" by simp
    have lt: "length s - Suc i < length s - i" using yes by linarith
    note IH = less(1)[OF lt]
    have s1: "set (ends (Plus b) s i) = set (ends (Plus b) s (Suc i)) \<union> {Suc i}"
      unfolding unf concat_map_single_set[OF sb, of ?F] F by simp
    from IH have IH1: "set (ends (Plus b) s (Suc i)) = {j. Suc i < j \<and> j \<le> Suc i + ?run (Suc i)}"
      and IH2: "ends (Plus b) s (Suc i) \<noteq> [] \<Longrightarrow> hd (ends (Plus b) s (Suc i)) = Suc i + ?run (Suc i)"
      by blast+
    have "{j. Suc i < j \<and> j \<le> Suc i + ?run (Suc i)} \<union> {Suc i} = {j. i < j \<and> j \<le> i + Suc (?run (Suc i))}"
      by (rule set_eqI) (simp, linarith)
    then have A: "set (ends (Plus b) s i) = {j. i < j \<and> j \<le> i + ?run i}"
      unfolding s1 IH1 run .
    have "hd (ends (Plus b) s i) = hd (ends (Plus b) s (Suc i) @ [Suc i])"
      unfolding unf using concat_map_single_hd[OF sb, of ?F] F by simp
    also have "\<dots> = i + Suc (?run (Suc i))"
    proof (cases "ends (Plus b) s (Suc i) = []")
      case True
      then have "{j. Suc i < j \<and> j \<le> Suc i + ?run (Suc i)} = {}"
        using IH1 by simp
      then have "\<not> (Suc i < Suc (Suc i) \<and> Suc (Suc i) \<le> Suc i + ?run (Suc i))"
        by blast
      then have "?run (Suc i) = 0" by linarith
      with True show ?thesis by simp
    next
      case False
      with IH2 show ?thesis by simp
    qed
    finally have "hd (ends (Plus b) s i) = i + ?run i"
      unfolding run .
    with A show ?thesis by blast
  qed
qed

lemma set_ends_Plus_Space:
  "set (ends (Plus Space) s i) = {j. i < j \<and> j \<le> i + length (takeWhile is_space (drop i s))}"
  using ends_Plus_class_aux[of Space s is_space i] by simp

lemma ends_literal:
  "ends (foldr (\<lambda>c. Seq (Chr c)) cn r) s i =
     (if take (length cn) (drop i s) = cn then ends r s (i + length cn) else [])"
proof (induction cn arbitrary: i)
  case Nil
  show ?case by simp
next
  case (Cons c cn)
  show ?case
  proof (cases "i < length s")
    case True
    then have "drop i s = s ! i # drop (Suc i) s"
      by (simp add: Cons_nth_drop_Suc)
    then show ?thesis using True by (auto simp: Cons.IH)
  next
    case False
    then show ?thesis by simp
  qed
qed

subsection \<open>Searching and replacing\<close>

lemma exec_from_unfold:
  "exec_from r s k =
     (if length s < k then None
      else if ends r s k \<noteq> [] then Some (k, hd (ends r s k))
      else exec_from r s (Suc k))"
proof (cases "length s < k")
  case True
  then show ?thesis by (simp add: exec_from_def del: upt_Suc)
next
  case False
  then have "[k ..< Suc (length s)] = k # [Suc k ..< Suc (length s)]"
    by (simp add: upt_conv_Cons del: upt_Suc)
  then show ?thesis using False
    by (simp add: exec_from_def del: upt_Suc)
qed

lemma exec_from_Some_bounds:
  assumes "exec_from r s k = Some (i, e)"
  shows "k \<le> i" and "i \<le> length s" and "ends r s i \<noteq> []" and "e = hd (ends r s i)"
    and "\<forall>j. k \<le> j \<and> j < i \<longrightarrow> ends r s j = []"
proof -
  from assms have f: "find (\<lambda>i. ends r s i \<noteq> []) [k ..< Suc (length s)] = Some i"
    and e: "e = hd (ends r s i)"
    by (auto simp: exec_from_def simp del: upt_Suc split: option.splits)
  from f obtain n where n: "n < length [k ..< Suc (length s)]" "ends r s ([k ..< Suc (length s)] ! n) \<noteq> []"
    "i = [k ..< Suc (length s)] ! n" "\<forall>j<n. \<not> ends r s ([k ..< Suc (length s)] ! j) \<noteq> []"
    unfolding find_Some_iff by blast
  from n(1) have n': "n < Suc (length s) - k" by (simp del: upt_Suc)
  then have i: "i = k + n" using n(3) by (simp del: upt_Suc)
  show "k \<le> i" using i by simp
  show "i \<le> length s" using i n' by simp
  show "ends r s i \<noteq> []" using n(2,3) by simp
  show "e = hd (ends r s i)" by (rule e)
  show "\<forall>j. k \<le> j \<and> j < i \<longrightarrow> ends r s j = []"
  proof (intro allI impI)
    fix j assume j: "k \<le> j \<and> j < i"
    then have "j - k < n" using i by linarith
    with n(4) have "ends r s ([k ..< Suc (length s)] ! (j - k)) = []" by blast
    moreover have "[k ..< Suc (length s)] ! (j - k) = j"
    proof -
      have "k + (j - k) < Suc (length s)" using j i n' by linarith
      then have "[k ..< Suc (length s)] ! (j - k) = k + (j - k)" by (rule nth_upt)
      with j show ?thesis by simp
    qed
    ultimately show "ends r s j = []" by simp
  qed
qed

lemma replace_global_skip:
  assumes "ends r s k = []" and "k < length s"
  shows "replace_global r s rep k = s ! k # replace_global r s rep (Suc k)"
proof -
  have ex: "exec_from r s k = exec_from r s (Suc k)"
    using assms by (subst exec_from_unfold) simp
  have d: "drop k s = s ! k # drop (Suc k) s"
    using assms(2) by (simp add: Cons_nth_drop_Suc)
  show ?thesis
  proof (cases "exec_from r s (Suc k)")
    case None
    then show ?thesis
      using ex d by (simp add: replace_global.simps[of r s rep k] replace_global.simps[of r s rep "Suc k"])
  next
    case (Some p)
    obtain i e where p: "p = (i, e)" by (cases p)
    from exec_from_Some_bounds(1)[OF Some[unfolded p]] have "Suc k \<le> i" .
    then have "take (i - k) (drop k s) = s ! k # take (i - Suc k) (drop (Suc k) s)"
    proof -
      from \<open>Suc k \<le> i\<close> have "i - k = Suc (i - Suc k)" by linarith
      then show ?thesis unfolding d by simp
    qed
    then show ?thesis
      using ex Some p
      by (simp add: replace_global.simps[of r s rep k] replace_global.simps[of r s rep "Suc k"])
  qed
qed

lemma replace_global_match:
  assumes "ends r s k \<noteq> []" and "k \<le> length s" and "k < hd (ends r s k)"
  shows "replace_global r s rep k = rep @ replace_global r s rep (hd (ends r s k))"
proof -
  have "exec_from r s k = Some (k, hd (ends r s k))"
    using assms by (subst exec_from_unfold) simp
  then show ?thesis using assms(3)
    by (simp add: replace_global.simps[of r s rep k])
qed

lemma replace_global_end:
  assumes "ends r s (length s) = []"
  shows "replace_global r s rep (length s) = []"
proof -
  have "exec_from r s (length s) = None"
    using assms by (simp add: exec_from_unfold[of r s "length s"] exec_from_unfold[of r s "Suc (length s)"])
  then show ?thesis
    by (simp add: replace_global.simps[of r s rep "length s"])
qed

subsection \<open>trim removes the white space at both ends\<close>

lemma set_ends_space_or_nbsp:
  "set (ends (Alt Space (Chr nbsp)) s i) = (if i < length s \<and> is_space (s ! i) then {Suc i} else {})"
  by (auto simp: nbsp_def is_space_def)

lemma ends_ws_plus:
  "set (ends (Plus (Alt Space (Chr nbsp))) s i) =
     {j. i < j \<and> j \<le> i + length (takeWhile is_space (drop i s))}"
  "ends (Plus (Alt Space (Chr nbsp))) s i \<noteq> [] \<Longrightarrow>
     hd (ends (Plus (Alt Space (Chr nbsp))) s i) = i + length (takeWhile is_space (drop i s))"
  using ends_Plus_class_aux[OF set_ends_space_or_nbsp, where s = s and i = i] by blast+

lemma takeWhile_drop_all:
  "i + length (takeWhile P (drop i s)) = length s \<longleftrightarrow> (\<forall>y \<in> set (drop i s). P y) \<and> i \<le> length s"
proof -
  have "length (takeWhile P (drop i s)) = length (drop i s) \<longleftrightarrow> (\<forall>y \<in> set (drop i s). P y)"
    by (metis takeWhile_eq_all_conv length_takeWhile_le takeWhile_eq_take take_all_iff le_refl)
  moreover have "length (takeWhile P (drop i s)) \<le> length s - i"
    using length_takeWhile_le[of P "drop i s"] by simp
  ultimately show ?thesis by (cases "i \<le> length s") auto
qed

lemma ends_trailing:
  "set (ends (Seq (Plus (Alt Space (Chr nbsp))) Eol) s i) =
     (if i < length s \<and> (\<forall>y \<in> set (drop i s). is_space y) then {length s} else {})"
proof -
  let ?P = "Plus (Alt Space (Chr nbsp))"
  have P: "set (ends ?P s i) = {j. i < j \<and> j \<le> i + length (takeWhile is_space (drop i s))}"
    by (rule ends_ws_plus)
  have le: "i + length (takeWhile is_space (drop i s)) \<le> length s \<or> length s < i"
    using length_takeWhile_le[of is_space "drop i s"] by (cases "i \<le> length s") auto
  have "set (ends (Seq ?P Eol) s i) = (if length s \<in> set (ends ?P s i) then {length s} else {})"
    by auto
  also have "length s \<in> set (ends ?P s i) \<longleftrightarrow> i < length s \<and> i + length (takeWhile is_space (drop i s)) = length s"
    unfolding P using le by auto
  also have "\<dots> \<longleftrightarrow> i < length s \<and> (\<forall>y \<in> set (drop i s). is_space y)"
    using takeWhile_drop_all[of i is_space s] by auto
  finally show ?thesis .
qed

lemma hd_singleton_set: "set xs = {a} \<Longrightarrow> hd xs = a"
  by (cases xs) auto

lemma ends_rtrim_pos:
  assumes "0 < k"
  shows "set (ends rtrim s k) = (if k < length s \<and> (\<forall>y \<in> set (drop k s). is_space y) then {length s} else {})"
  using assms ends_trailing[of s k] by (simp add: rtrim_def)

lemma ends_rtrim_0_space:
  assumes "s \<noteq> []" and "is_space (hd s)"
  shows "ends rtrim s 0 \<noteq> []" and "hd (ends rtrim s 0) = length (takeWhile is_space s)"
proof -
  let ?P = "Plus (Alt Space (Chr nbsp))"
  from assms obtain x xs where s: "s = x # xs" and x: "is_space x" by (cases s) auto
  have "Suc 0 \<in> set (ends ?P s 0)"
    unfolding ends_ws_plus(1) using s x by simp
  then have ne: "ends ?P s 0 \<noteq> []" by auto
  then have hd: "hd (ends ?P s 0) = length (takeWhile is_space s)"
    using ends_ws_plus(2)[of s 0] by simp
  have e: "ends rtrim s 0 = ends ?P s 0 @ ends (Seq ?P Eol) s 0"
    by (simp add: rtrim_def)
  show "ends rtrim s 0 \<noteq> []" using e ne by simp
  show "hd (ends rtrim s 0) = length (takeWhile is_space s)" using e ne hd by simp
qed

lemma ends_rtrim_0_other:
  assumes "s = [] \<or> \<not> is_space (hd s)"
  shows "ends rtrim s 0 = []"
proof -
  let ?P = "Plus (Alt Space (Chr nbsp))"
  have "length (takeWhile is_space (drop 0 s)) = 0"
    using assms by (cases s) auto
  then have "set (ends ?P s 0) = {}"
    unfolding ends_ws_plus(1) by auto
  then have "ends ?P s 0 = []" by simp
  then show ?thesis by (simp add: rtrim_def)
qed

lemma rstrip_Cons:
  "rev (dropWhile P (rev (x # xs))) =
     (if (\<forall>y \<in> set (x # xs). P y) then [] else x # rev (dropWhile P (rev xs)))"
  by (auto simp: dropWhile_append)

lemma replace_global_rtrim_pos:
  "0 < k \<Longrightarrow> k \<le> length s \<Longrightarrow>
     replace_global rtrim s [] k = rev (dropWhile is_space (rev (drop k s)))"
proof (induction "length s - k" arbitrary: k rule: less_induct)
  case less
  show ?case
  proof (cases "k < length s")
    case False
    with less.prems have k: "k = length s" by simp
    have "ends rtrim s (length s) = []"
      using ends_rtrim_pos[of "length s" s] less.prems k by simp
    then show ?thesis unfolding k by (simp add: replace_global_end)
  next
    case True
    then have d: "drop k s = s ! k # drop (Suc k) s"
      by (simp add: Cons_nth_drop_Suc)
    show ?thesis
    proof (cases "\<forall>y \<in> set (drop k s). is_space y")
      case all: True
      then have set: "set (ends rtrim s k) = {length s}"
        using ends_rtrim_pos[of k s] less.prems True by simp
      then have ne: "ends rtrim s k \<noteq> []" by auto
      have hd: "hd (ends rtrim s k) = length s"
        using set by (rule hd_singleton_set)
      have "0 < length s" using less.prems True by linarith
      then have "set (ends rtrim s (length s)) = {}"
        by (simp add: ends_rtrim_pos)
      then have "ends rtrim s (length s) = []" by simp
      then have "replace_global rtrim s [] (length s) = []"
        by (rule replace_global_end)
      then have "replace_global rtrim s [] k = []"
        using replace_global_match[OF ne, of "[]"] True hd by simp
      moreover have "rev (dropWhile is_space (rev (drop k s))) = []"
        using all by simp
      ultimately show ?thesis by simp
    next
      case notall: False
      then have "set (ends rtrim s k) = {}"
        using ends_rtrim_pos[of k s] less.prems by simp
      then have e: "ends rtrim s k = []" by simp
      have "replace_global rtrim s [] k = s ! k # replace_global rtrim s [] (Suc k)"
        using e True by (rule replace_global_skip)
      also have "replace_global rtrim s [] (Suc k) = rev (dropWhile is_space (rev (drop (Suc k) s)))"
        using True by (intro less.hyps) auto
      also have "s ! k # rev (dropWhile is_space (rev (drop (Suc k) s))) =
          rev (dropWhile is_space (rev (drop k s)))"
        using notall unfolding d by (subst rstrip_Cons) simp
      finally show ?thesis .
    qed
  qed
qed

lemma trim_eq: "trim s = rev (dropWhile is_space (rev (dropWhile is_space s)))"
proof (cases "s \<noteq> [] \<and> is_space (hd s)")
  case True
  then have ne: "ends rtrim s 0 \<noteq> []" and hd: "hd (ends rtrim s 0) = length (takeWhile is_space s)"
    using ends_rtrim_0_space[of s] by auto
  from True have pos: "0 < length (takeWhile is_space s)"
    by (cases s) auto
  have "trim s = replace_global rtrim s [] (length (takeWhile is_space s))"
    using replace_global_match[OF ne, of "[]"] hd pos by (simp add: trim_def)
  also have "\<dots> = rev (dropWhile is_space (rev (drop (length (takeWhile is_space s)) s)))"
    using pos length_takeWhile_le[of is_space s] by (intro replace_global_rtrim_pos) auto
  finally show ?thesis by (simp add: dropWhile_eq_drop)
next
  case False
  then have e: "ends rtrim s 0 = []"
    using ends_rtrim_0_other[of s] by auto
  show ?thesis
  proof (cases s)
    case Nil
    then show ?thesis
      using replace_global_end[of rtrim "[]" "[]"] e by (simp add: trim_def)
  next
    case (Cons x xs)
    with False have x: "\<not> is_space x" by simp
    have "trim s = s ! 0 # replace_global rtrim s [] (Suc 0)"
      unfolding trim_def using e Cons by (intro replace_global_skip) auto
    also have "replace_global rtrim s [] (Suc 0) = rev (dropWhile is_space (rev (drop (Suc 0) s)))"
      using Cons by (intro replace_global_rtrim_pos) auto
    finally have "trim s = x # rev (dropWhile is_space (rev xs))"
      using Cons by simp
    moreover have "rev (dropWhile is_space (rev (dropWhile is_space s))) = x # rev (dropWhile is_space (rev xs))"
      using x Cons by (simp add: dropWhile_append)
    ultimately show ?thesis by simp
  qed
qed

subsection \<open>The pattern of a class name\<close>

lemma regex_test_iff: "regex_test r s \<longleftrightarrow> (\<exists>i \<le> length s. ends r s i \<noteq> [])"
proof -
  have "regex_test r s \<longleftrightarrow> find (\<lambda>i. ends r s i \<noteq> []) [0 ..< Suc (length s)] \<noteq> None"
    by (simp add: regex_test_def exec_from_def del: upt_Suc split: option.splits)
  also have "\<dots> \<longleftrightarrow> (\<exists>i \<in> set [0 ..< Suc (length s)]. ends r s i \<noteq> [])"
    unfolding find_None_iff by blast
  also have "\<dots> \<longleftrightarrow> (\<exists>i \<le> length s. ends r s i \<noteq> [])"
    by (auto simp: less_Suc_eq_le simp del: upt_Suc)
  finally show ?thesis .
qed

lemma in_ends_class_pattern:
  "e \<in> set (ends (class_pattern c) s i) \<longleftrightarrow>
     (\<exists>k. (i = 0 \<and> k = 0 \<or> i < k \<and> k \<le> i + length (takeWhile is_space (drop i s))) \<and>
          take (length c) (drop k s) = c \<and>
          (k + length c < e \<and> e \<le> k + length c + length (takeWhile is_space (drop (k + length c) s)) \<or>
           e = k + length c \<and> e = length s))"
  by (auto simp: class_pattern_def ends_literal set_ends_Plus_Space)

lemma regex_test_own_className: "regex_test (class_pattern c) c"
proof -
  have "length c \<in> set (ends (class_pattern c) c 0)"
    unfolding in_ends_class_pattern by (intro exI[of _ 0]) simp
  then have "ends (class_pattern c) c 0 \<noteq> []" by auto
  then show ?thesis unfolding regex_test_iff by blast
qed




subsection \<open>The cache\<close>

lemma cache_inv_initial: "cache_inv (initial d)"
  by (simp add: cache_inv_def initial_def)

lemma getClassRegEx_hit:
  "reClassNameCache st cn = Some re \<Longrightarrow> getClassRegEx h cn st = Inr (RegExpObject re, st)"
  by (simp add: getClassRegEx_def)

lemma getClassRegEx_inherited:
  "reClassNameCache st cn = None \<Longrightarrow> inherited h cn = Some txt \<Longrightarrow>
     getClassRegEx h cn st = Inr (OtherObject txt, st)"
  by (simp add: getClassRegEx_def)

lemma getClassRegEx_new:
  "reClassNameCache st cn = None \<Longrightarrow> inherited h cn = None \<Longrightarrow> literal cn \<Longrightarrow>
     getClassRegEx h cn st =
       Inr (RegExpObject \<lparr>oid = allocated st, pattern = class_pattern cn\<rparr>,
            st\<lparr>allocated := Suc (allocated st),
               reClassNameCache := (reClassNameCache st)(cn \<mapsto> \<lparr>oid = allocated st, pattern = class_pattern cn\<rparr>)\<rparr>)"
  by (simp add: getClassRegEx_def new_RegExp_def)

lemma getClassRegEx_not_modelled:
  "reClassNameCache st cn = None \<Longrightarrow> inherited h cn = None \<Longrightarrow> \<not> literal cn \<Longrightarrow>
     getClassRegEx h cn st = Inl NotModelled"
  by (simp add: getClassRegEx_def new_RegExp_def)

lemma cache_inv_store:
  assumes "cache_inv st" and "reClassNameCache st cn = None"
  shows "cache_inv (st\<lparr>allocated := Suc (allocated st),
               reClassNameCache := (reClassNameCache st)(cn \<mapsto> \<lparr>oid = allocated st, pattern = class_pattern cn\<rparr>)\<rparr>)"
proof -
  let ?new = "\<lparr>oid = allocated st, pattern = class_pattern cn\<rparr>"
  let ?c = "(reClassNameCache st)(cn \<mapsto> ?new)"
  from assms(1) have fin: "finite (dom (reClassNameCache st))"
    and card: "card (dom (reClassNameCache st)) = allocated st"
    and pat: "\<And>c re. reClassNameCache st c = Some re \<Longrightarrow>
      pattern re = class_pattern c \<and> oid re < allocated st"
    and inj: "\<And>a b ra rb. reClassNameCache st a = Some ra \<Longrightarrow> reClassNameCache st b = Some rb \<Longrightarrow>
        oid ra = oid rb \<Longrightarrow> a = b"
    unfolding cache_inv_def by blast+
  from assms(2) have "cn \<notin> dom (reClassNameCache st)" by auto
  with fin card have c1: "finite (dom ?c)" and c2: "card (dom ?c) = Suc (allocated st)"
    by simp_all
  have c3: "pattern re = class_pattern c \<and> oid re < Suc (allocated st)" if "?c c = Some re" for c re
  proof (cases "c = cn")
    case True
    with that show ?thesis by auto
  next
    case False
    with that have "reClassNameCache st c = Some re" by simp
    from pat[OF this] show ?thesis by simp
  qed
  have c4: "a = b" if "?c a = Some ra" and "?c b = Some rb" and "oid ra = oid rb" for a b ra rb
  proof (cases "a = cn"; cases "b = cn")
    assume "a = cn" "b = cn"
    then show ?thesis by simp
  next
    assume a: "a = cn" and b: "b \<noteq> cn"
    with that have "oid rb = allocated st" and "reClassNameCache st b = Some rb" by auto
    with pat[of b rb] show ?thesis by simp
  next
    assume a: "a \<noteq> cn" and b: "b = cn"
    with that have "oid ra = allocated st" and "reClassNameCache st a = Some ra" by auto
    with pat[of a ra] show ?thesis by simp
  next
    assume "a \<noteq> cn" "b \<noteq> cn"
    with that have "reClassNameCache st a = Some ra" "reClassNameCache st b = Some rb" by auto
    from inj[OF this that(3)] show ?thesis .
  qed
  show ?thesis
    unfolding cache_inv_def using c1 c2 c3 c4 by (simp del: fun_upd_apply dom_fun_upd)
qed

lemma getClassRegEx_result:
  assumes "getClassRegEx h cn st = Inr (v, st')"
  shows "document st' = document st"
    and "\<And>c re. reClassNameCache st c = Some re \<Longrightarrow> reClassNameCache st' c = Some re"
    and "getClassRegEx h cn st' = Inr (v, st')"
    and "cache_inv st \<Longrightarrow> cache_inv st'"
    and "allocated st \<le> allocated st'"
proof -
  consider (hit) re where "reClassNameCache st cn = Some re"
    | (inh) t where "reClassNameCache st cn = None" "inherited h cn = Some t"
    | (new) "reClassNameCache st cn = None" "inherited h cn = None" "literal cn"
    | (bad) "reClassNameCache st cn = None" "inherited h cn = None" "\<not> literal cn"
    by (cases "reClassNameCache st cn"; cases "inherited h cn"; cases "literal cn") auto
  then have "document st' = document st \<and>
    (\<forall>c re. reClassNameCache st c = Some re \<longrightarrow> reClassNameCache st' c = Some re) \<and>
    getClassRegEx h cn st' = Inr (v, st') \<and> (cache_inv st \<longrightarrow> cache_inv st') \<and>
    allocated st \<le> allocated st'"
  proof cases
    case hit
    with assms show ?thesis by (auto simp: getClassRegEx_hit)
  next
    case inh
    with assms show ?thesis by (auto simp: getClassRegEx_inherited)
  next
    case new
    from assms[unfolded getClassRegEx_new[OF new]]
    have v: "v = RegExpObject \<lparr>oid = allocated st, pattern = class_pattern cn\<rparr>"
      and st': "st' = st\<lparr>allocated := Suc (allocated st),
               reClassNameCache := (reClassNameCache st)(cn \<mapsto> \<lparr>oid = allocated st, pattern = class_pattern cn\<rparr>)\<rparr>"
      by auto
    have "reClassNameCache st' cn = Some \<lparr>oid = allocated st, pattern = class_pattern cn\<rparr>"
      by (simp add: st')
    then have "getClassRegEx h cn st' = Inr (v, st')"
      unfolding v by (rule getClassRegEx_hit)
    moreover have "cache_inv st \<longrightarrow> cache_inv st'"
      unfolding st' using cache_inv_store[OF _ new(1)] by blast
    moreover have "\<forall>c re. reClassNameCache st c = Some re \<longrightarrow> reClassNameCache st' c = Some re"
      using new(1) by (auto simp: st')
    ultimately show ?thesis by (simp add: st')
  next
    case bad
    with assms show ?thesis by (simp add: getClassRegEx_not_modelled)
  qed
  then show "document st' = document st"
    and "\<And>c re. reClassNameCache st c = Some re \<Longrightarrow> reClassNameCache st' c = Some re"
    and "getClassRegEx h cn st' = Inr (v, st')"
    and "cache_inv st \<Longrightarrow> cache_inv st'"
    and "allocated st \<le> allocated st'"
    by blast+
qed

lemma getClassRegEx_pattern:
  assumes "cache_inv st" and "literal cn" and "inherited h cn = None"
  shows "\<exists>re st'. getClassRegEx h cn st = Inr (RegExpObject re, st') \<and> pattern re = class_pattern cn \<and>
     reClassNameCache st' cn = Some re"
proof (cases "reClassNameCache st cn")
  case None
  show ?thesis
    unfolding getClassRegEx_new[OF None assms(3,2)] by simp
next
  case (Some re)
  with assms(1) have "pattern re = class_pattern cn"
    by (auto simp: cache_inv_def)
  with Some show ?thesis
    by (simp add: getClassRegEx_hit)
qed

lemma hasClass_value:
  assumes "cache_inv st" and "literal cn" and "inherited h cn = None"
  shows "\<exists>st'. hasClass h el cn st = Inr (regex_test (class_pattern cn) (className (document st el)), st') \<and>
     cache_inv st' \<and> document st' = document st \<and> reClassNameCache st' cn \<noteq> None \<and>
     (\<forall>c re. reClassNameCache st c = Some re \<longrightarrow> reClassNameCache st' c = Some re)"
proof -
  from getClassRegEx_pattern[OF assms] obtain re st'
    where g: "getClassRegEx h cn st = Inr (RegExpObject re, st')"
      and p: "pattern re = class_pattern cn" and c: "reClassNameCache st' cn = Some re"
    by blast
  from getClassRegEx_result[OF g] assms(1)
  have "document st' = document st" "cache_inv st'"
    "\<forall>c re. reClassNameCache st c = Some re \<longrightarrow> reClassNameCache st' c = Some re"
    by blast+
  then show ?thesis
    using g p c by (simp add: hasClass_def)
qed


subsection \<open>The loop of addClass\<close>




subsection \<open>Loops that return\<close>







subsection \<open>What one replacement removes\<close>

lemma take_prefix_takeWhile:
  "n \<le> length (takeWhile P xs) \<Longrightarrow> list_all P (take n xs)"
proof (induction xs arbitrary: n)
  case Nil
  show ?case by simp
next
  case (Cons x xs)
  then show ?case
    by (cases n) (auto split: if_splits)
qed




subsection \<open>A lookup that has succeeded stays the same\<close>













subsection \<open>The pattern of a class name matches whole tokens\<close>

lemma takeWhile_pos_iff:
  "0 < length (takeWhile P xs) \<longleftrightarrow> xs \<noteq> [] \<and> P (hd xs)"
  by (cases xs) auto

lemma regex_test_class_pattern_iff:
  "regex_test (class_pattern c) s \<longleftrightarrow>
     (\<exists>u v. s = u @ c @ v \<and> (u = [] \<or> is_space (last u)) \<and> (v = [] \<or> is_space (hd v)))"
proof
  assume "regex_test (class_pattern c) s"
  then obtain i where "ends (class_pattern c) s i \<noteq> []"
    unfolding regex_test_iff by blast
  then obtain e where "e \<in> set (ends (class_pattern c) s i)"
    by (cases "ends (class_pattern c) s i") auto
  then obtain k where k: "i = 0 \<and> k = 0 \<or> i < k \<and> k \<le> i + length (takeWhile is_space (drop i s))"
    and lit: "take (length c) (drop k s) = c"
    and e: "k + length c < e \<and> e \<le> k + length c + length (takeWhile is_space (drop (k + length c) s)) \<or>
           e = k + length c \<and> e = length s"
    unfolding in_ends_class_pattern by blast
  let ?u = "take k s" and ?v = "drop (k + length c) s"
  have "drop k s = c @ ?v"
    using append_take_drop_id[of "length c" "drop k s"] lit by (simp add: add.commute)
  then have s: "s = ?u @ c @ ?v"
    using append_take_drop_id[of k s] by simp
  have u: "?u = [] \<or> is_space (last ?u)"
  proof (cases "k = 0")
    case True
    then show ?thesis by simp
  next
    case False
    with k have ik: "i < k" and kr: "k \<le> i + length (takeWhile is_space (drop i s))" by auto
    have "list_all is_space (take (k - i) (drop i s))"
      using kr by (intro take_prefix_takeWhile) auto
    moreover have kl: "k \<le> length s"
      using ik kr length_takeWhile_le[of is_space "drop i s"] by (cases "i \<le> length s") auto
    then have "s ! (k - 1) \<in> set (take (k - i) (drop i s))"
      using ik by (auto simp: in_set_conv_nth intro!: exI[of _ "k - 1 - i"])
    ultimately have "is_space (s ! (k - 1))"
      by (auto simp: list_all_iff)
    moreover have "last ?u = s ! (k - 1)"
    proof -
      have ne: "?u \<noteq> []" using kl False by auto
      have "last ?u = ?u ! (length ?u - 1)" by (rule last_conv_nth[OF ne])
      also have "length ?u = k" using kl by simp
      also have "?u ! (k - 1) = s ! (k - 1)" using False by simp
      finally show ?thesis .
    qed
    ultimately show ?thesis by simp
  qed
  have v: "?v = [] \<or> is_space (hd ?v)"
  proof (cases "e = k + length c \<and> e = length s")
    case True
    then show ?thesis by simp
  next
    case False
    with e have "0 < length (takeWhile is_space ?v)" by auto
    then show ?thesis unfolding takeWhile_pos_iff by simp
  qed
  from s u v show "\<exists>u v. s = u @ c @ v \<and> (u = [] \<or> is_space (last u)) \<and> (v = [] \<or> is_space (hd v))"
    by blast
next
  assume "\<exists>u v. s = u @ c @ v \<and> (u = [] \<or> is_space (last u)) \<and> (v = [] \<or> is_space (hd v))"
  then obtain u v where s: "s = u @ c @ v" and u: "u = [] \<or> is_space (last u)"
    and v: "v = [] \<or> is_space (hd v)" by blast
  let ?i = "length u - 1" and ?k = "length u"
  let ?e = "if v = [] then length s else Suc (length u + length c)"
  have k: "?i = 0 \<and> ?k = 0 \<or> ?i < ?k \<and> ?k \<le> ?i + length (takeWhile is_space (drop ?i s))"
  proof (cases "u = []")
    case True
    then show ?thesis by simp
  next
    case False
    with u have l: "is_space (last u)" by simp
    from False obtain u' x where ux: "u = u' @ [x]"
      by (cases u rule: rev_cases) auto
    have "drop ?i s = last u # c @ v"
      unfolding s ux by simp
    with l have "0 < length (takeWhile is_space (drop ?i s))" by simp
    moreover from False have "?i < ?k" by (cases u) auto
    ultimately show ?thesis by linarith
  qed
  have lit: "take (length c) (drop ?k s) = c"
    by (simp add: s)
  have e: "?k + length c < ?e \<and> ?e \<le> ?k + length c + length (takeWhile is_space (drop (?k + length c) s)) \<or>
           ?e = ?k + length c \<and> ?e = length s"
  proof (cases "v = []")
    case True
    then show ?thesis by (simp add: s)
  next
    case False
    with v have "0 < length (takeWhile is_space v)"
      unfolding takeWhile_pos_iff by simp
    then have "Suc 0 \<le> length (takeWhile is_space v)" by (rule Suc_leI)
    moreover have "drop (?k + length c) s = v" by (simp add: s)
    ultimately have "?k + length c < Suc (?k + length c) \<and>
        Suc (?k + length c) \<le> ?k + length c + length (takeWhile is_space (drop (?k + length c) s))"
      by (simp only:) linarith
    then show ?thesis using False by simp
  qed
  have "?e \<in> set (ends (class_pattern c) s ?i)"
    unfolding in_ends_class_pattern using k lit e by blast
  then have "ends (class_pattern c) s ?i \<noteq> []" by auto
  moreover have "?i \<le> length s" by (simp add: s)
  ultimately show "regex_test (class_pattern c) s"
    unfolding regex_test_iff by blast
qed

subsection \<open>The loop of the method hasClass\<close>

lemma hasClass_method_loop:
  assumes cb: "\<And>el s. names_modelled h all s \<Longrightarrow> names_modelled h all (cb el s)"
    and "names_modelled h all st" and "set els \<subseteq> set all"
  shows "\<exists>st'. each_from els
       (\<lambda>el (st, calls).
             case hasClass h el (className (document st el)) st of
               Inl e \<Rightarrow> Inl e
             | Inr (b, st') \<Rightarrow>
                 if b
                 then (case Some cb of
                         None \<Rightarrow> Inl TypeError
                       | Some cb \<Rightarrow> Inr (cb el st', calls @ [el]))
                 else Inr (st', calls))
       (st, calls) = Inr (st', calls @ els) \<and> names_modelled h all st'"
  using assms(2,3)
proof (induction els arbitrary: st calls)
  case Nil
  then show ?case by simp
next
  case (Cons el els)
  let ?own = "className (document st el)"
  from Cons.prems have inv: "cache_inv st" and lit: "literal ?own" and inh: "inherited h ?own = None"
    by (auto simp: names_modelled_def)
  from hasClass_value[OF inv lit inh, of el] obtain st1
    where hc: "hasClass h el ?own st = Inr (regex_test (class_pattern ?own) ?own, st1)"
      and i1: "cache_inv st1" and d1: "document st1 = document st"
    by blast
  from Cons.prems(1) i1 d1 have "names_modelled h all st1"
    by (simp add: names_modelled_def)
  then have ok2: "names_modelled h all (cb el st1)" by (rule cb)
  from Cons.prems(2) have "set els \<subseteq> set all" by simp
  from Cons.IH[OF ok2 this, of "calls @ [el]"] obtain st'
    where "each_from els
       (\<lambda>el (st, calls).
             case hasClass h el (className (document st el)) st of
               Inl e \<Rightarrow> Inl e
             | Inr (b, st') \<Rightarrow>
                 if b
                 then (case Some cb of
                         None \<Rightarrow> Inl TypeError
                       | Some cb \<Rightarrow> Inr (cb el st', calls @ [el]))
                 else Inr (st', calls))
       (cb el st1, calls @ [el]) = Inr (st', (calls @ [el]) @ els)"
      and "names_modelled h all st'"
    by blast
  then show ?case
    using hc by (simp add: regex_test_own_className)
qed

subsection \<open>Evaluations on concrete pages\<close>



lemma literal_foo: "literal ''foo''"
  by (simp add: literal_def regex_special_def)

lemma literal_foo_bar: "literal ''foo bar''"
  by (simp add: literal_def regex_special_def)

lemma not_inherited_examples:
  "inherited example_host ''bar'' = None" "inherited example_host ''foo'' = None"
  "inherited example_host ''b'' = None" "inherited example_host ''foo bar'' = None"
  by (simp_all add: example_host_def)



section \<open>The claims\<close>

text \<open>
  In the statements below \<open>h\<close> is the platform, \<open>this\<close> the collection a method is called
  on and \<open>st\<close> the state before the call. A statement about a class name \<open>c\<close> is made for
  \<open>literal c\<close>, the names whose pattern the embedding covers, and where the cache is read
  it is made for the states with \<open>cache_inv\<close>, which are the states the code can reach.
\<close>

subsection \<open>C1: removeClass("b") on the class list "a b c"\<close>

text \<open>
  C1 says that on an element whose class name is \<^verbatim>\<open>"a b c"\<close> the call
  \<^verbatim>\<open>removeClass("b")\<close> leaves \<^verbatim>\<open>a\<close> and \<^verbatim>\<open>c\<close> as whole class tokens. The code does not:
  the pattern matches the white space on both sides of \<^verbatim>\<open>b\<close> and the match is replaced by
  the empty string, so the class name becomes \<^verbatim>\<open>"ac"\<close>, one token that is neither \<^verbatim>\<open>a\<close>
  nor \<^verbatim>\<open>c\<close>.
\<close>

theorem removeClass_merges_neighbours:
  "classNames [0] (removeClass example_host (first_n 1) (Some ''b'')
       (initial (page [(''a b c'', [])]))) = Inr [''ac'']"
  by code_simp

subsection \<open>C2: hasClass with a callback\<close>

text \<open>
  C2 says that \<^verbatim>\<open>hasClass(className, callback)\<close> calls the callback on exactly the
  elements whose class list contains \<^verbatim>\<open>className\<close>. The code tests each element with the
  pattern of the element's own class name (line 167) and never reads the argument: on a
  page with the class names \<^verbatim>\<open>"foo"\<close> and \<^verbatim>\<open>"foo bar"\<close> the call for \<^verbatim>\<open>"bar"\<close> calls
  the callback on both elements, also on the one without the class \<^verbatim>\<open>bar\<close>.
\<close>

theorem hasClass_callback_ignores_argument:
  "called_with (hasClass_method example_host (first_n 2) ''bar'' (Some no_op)
       (initial (page [(''foo'', []), (''foo bar'', [])]), [])) = Inr (Collection (first_n 2), [0, 1])"
  by code_simp

subsection \<open>C3: hasClass without a callback on one element\<close>




subsection \<open>C4: addClass makes the class a member, and is idempotent\<close>




subsection \<open>C5: getStyle\<close>



subsection \<open>C6: css is a sequence of setStyle calls\<close>

text \<open>
  C6. For every properties object, \<^verbatim>\<open>css(o)\<close> returns the collection and leaves the
  state that the calls \<^verbatim>\<open>setStyle(key, o[key])\<close>, made in sequence for the keys of \<open>o\<close> on
  the whole collection, leave. (The code runs that sequence once for every element of the
  collection; running it again changes nothing, and on an empty collection neither side
  does anything.)
\<close>

theorem css_equals_setStyle_in_sequence:
  "css this ps st =
     (case setStyle_in_sequence this ps st of
        Inl e \<Rightarrow> Inl e
      | Inr st' \<Rightarrow> Inr (Collection this, st'))"
  by (simp add: css_style_all setStyle_in_sequence_style_all)

theorem css_witness:
  "\<exists>st'. css (first_n 2) [(''color'', ''red''), (''border'', ''1px solid blue'')]
        (initial (page [(''foo'', []), (''bar'', [(''color'', ''black'')])])) = Inr (Collection (first_n 2), st') \<and>
     style (document st' 1) ''color'' = Some ''red'' \<and>
     style (document st' 0) ''border'' = Some ''1px solid blue''"
  using css_equals_setStyle_in_sequence
    [of "first_n 2" "[(''color'', ''red''), (''border'', ''1px solid blue'')]"
        "initial (page [(''foo'', []), (''bar'', [(''color'', ''black'')])])"]
  by (simp add: setStyle_in_sequence_def setStyle_def each_def first_n_def set_style_def initial_def page_def upt_rec)

subsection \<open>C7: removeClass without an argument\<close>

text \<open>
  C7. \<^verbatim>\<open>removeClass()\<close> without an argument returns the collection and leaves the empty
  string as the class name of every element of the collection.
\<close>

theorem removeClass_no_argument_clears:
  "\<exists>st'. removeClass h this None st = Inr (Collection this, st') \<and>
     (\<forall>r \<in> set (elems this). className (document st' r) = [])"
  by (simp add: removeClass_None fold_set_className_document)

theorem removeClass_no_argument_clears_witness:
  "\<exists>st'. removeClass example_host (first_n 2) None (initial (page [(''foo'', []), (''foo bar'', [])])) =
       Inr (Collection (first_n 2), st') \<and>
     className (document st' 0) = [] \<and> className (document st' 1) = []"
  using removeClass_no_argument_clears
    [of example_host "first_n 2" "initial (page [(''foo'', []), (''foo bar'', [])])"]
  by (auto simp: first_n_def)

subsection \<open>C8: the cache of patterns\<close>



subsection \<open>C9: the methods return the collection\<close>




subsection \<open>C10: removeClass replaces one match\<close>




section \<open>Further properties of the code\<close>

text \<open>
  \<^verbatim>\<open>trim\<close> removes exactly the white space at the start and at the end of a string.
\<close>

theorem trim_strips_both_ends:
  "trim s = rev (dropWhile is_space (rev (dropWhile is_space s)))"
  by (rule trim_eq)

text \<open>
  The pattern of a class name is a test for a whole token: it matches in a string exactly
  when the name occurs there with the start of the string or a white space character
  before it and the end of the string or a white space character after it. So
  \<^verbatim>\<open>removeClass("b")\<close> and \<^verbatim>\<open>addClass("b")\<close> never take the \<^verbatim>\<open>b\<close> of \<^verbatim>\<open>ab\<close> for the class.
\<close>

theorem class_pattern_matches_whole_tokens:
  "regex_test (class_pattern c) s \<longleftrightarrow>
     (\<exists>u v. s = u @ c @ v \<and> (u = [] \<or> is_space (last u)) \<and> (v = [] \<or> is_space (hd v)))"
  by (rule regex_test_class_pattern_iff)

text \<open>
  The defect that C2 and C3 meet, for every page: when the class names of the elements
  are names that the embedding covers, and the callback keeps it so,
  \<^verbatim>\<open>hasClass(c, callback)\<close> calls the callback on every element of the collection, in
  order, whatever \<open>c\<close> is.
\<close>

theorem hasClass_callback_called_on_every_element:
  assumes "\<And>el s. names_modelled h (elems this) s \<Longrightarrow> names_modelled h (elems this) (cb el s)"
    and "names_modelled h (elems this) st"
  shows "\<exists>st'. hasClass_method h this c (Some cb) (st, calls) =
     Inr (Collection this, (st', calls @ elems this))"
proof -
  from hasClass_method_loop[of h "elems this" cb st "elems this" calls, OF assms]
  show ?thesis
    by (auto simp: hasClass_method_def each_def)
qed

theorem hasClass_callback_called_on_every_element_witness:
  "names_modelled example_host (elems (first_n 2)) (initial (page [(''foo'', []), (''foo bar'', [])])) \<and>
   (\<exists>st'. hasClass_method example_host (first_n 2) ''bar'' (Some no_op)
        (initial (page [(''foo'', []), (''foo bar'', [])]), []) =
      Inr (Collection (first_n 2), (st', [0, 1])))"
proof -
  have ok: "names_modelled example_host (elems (first_n 2)) (initial (page [(''foo'', []), (''foo bar'', [])]))"
    using cache_inv_initial[of "page [(''foo'', []), (''foo bar'', [])]"] literal_foo literal_foo_bar
      not_inherited_examples(2,4)
    by (simp add: names_modelled_def first_n_def initial_def page_def upt_rec)
  have "names_modelled example_host (elems (first_n 2)) (no_op el s)"
    if "names_modelled example_host (elems (first_n 2)) s" for el s
    using that by (simp add: no_op_def)
  from hasClass_callback_called_on_every_element[of example_host "first_n 2" no_op, OF this ok, of "''bar''" "[]"]
  show ?thesis using ok by (simp add: first_n_def upt_rec)
qed

text \<open>
  The scenario of the specification: on the elements with the class names \<^verbatim>\<open>"foo"\<close> and
  \<^verbatim>\<open>"foo bar"\<close>, \<^verbatim>\<open>removeClass("foo")\<close> leaves the class names \<^verbatim>\<open>""\<close> and \<^verbatim>\<open>"bar"\<close>.
\<close>

theorem removeClass_scenario:
  "classNames [0, 1] (removeClass example_host (first_n 2) (Some ''foo'')
       (initial (page [(''foo'', []), (''foo bar'', [])]))) = Inr ['''', ''bar'']"
  by code_simp

end
